theory Spec2Isabelle
  imports Main "HOL-Library.Multiset"
begin

section \<open>Python values used by the recommendation service\<close>

text \<open>
  Exceptions are values. Every constructor stands for a subclass of Python's
  \<open>Exception\<close>, which is what the handlers of the service catch.
\<close>

datatype py_error =
  KeyError | AttributeError | RequestException | JSONDecodeError | HTTPException nat | OtherException

text \<open>
  \<open>xs[:k]\<close> for an integer \<open>k\<close>: the first \<open>k\<close> elements when \<open>k\<close> is not negative,
  all but the last \<open>-k\<close> elements when it is.
\<close>

definition py_slice_to :: "'a list \<Rightarrow> int \<Rightarrow> 'a list" where
  "py_slice_to xs k = take (nat (if k < 0 then int (length xs) + k else k)) xs"

text \<open>
  \<open>d.get(key, [])\<close> on a dictionary whose values are lists: the field is \<open>None\<close> when the
  key is absent.
\<close>

definition dict_get :: "'a list option \<Rightarrow> 'a list" where
  "dict_get v = (case v of None \<Rightarrow> [] | Some xs \<Rightarrow> xs)"

section \<open>Scores and Python's sort\<close>

text \<open>
  A score read from JSON is a number or the float \<open>nan\<close>. Python's \<open><\<close> on two numbers is
  the order of the numbers; every comparison with \<open>nan\<close> is false.
\<close>

datatype 's score = Num 's | NaN

fun py_lt :: "('s::linorder) score \<Rightarrow> 's score \<Rightarrow> bool" where
  "py_lt (Num a) (Num b) = (a < b)"
| "py_lt _ _ = False"

text \<open>
  \<open>list.sort\<close> as CPython 3.11 runs it on a list of fewer than 64 elements, with \<open><\<close> on
  the keys as its only comparison. \<open>count_run\<close> finds the run the list starts with: strictly
  descending when the second element is less than the first, and then reversed in place,
  not descending otherwise. \<open>ascending_run\<close> and \<open>descending_run\<close> count how far the run
  goes on after its second element.
\<close>

fun ascending_run :: "('a \<Rightarrow> ('s::linorder) score) \<Rightarrow> 'a \<Rightarrow> 'a list \<Rightarrow> nat" where
  "ascending_run key prev [] = 0"
| "ascending_run key prev (x # xs) =
     (if py_lt (key x) (key prev) then 0 else Suc (ascending_run key x xs))"

fun descending_run :: "('a \<Rightarrow> ('s::linorder) score) \<Rightarrow> 'a \<Rightarrow> 'a list \<Rightarrow> nat" where
  "descending_run key prev [] = 0"
| "descending_run key prev (x # xs) =
     (if py_lt (key x) (key prev) then Suc (descending_run key x xs) else 0)"

definition count_run :: "('a \<Rightarrow> ('s::linorder) score) \<Rightarrow> 'a list \<Rightarrow> nat \<times> bool" where
  "count_run key a =
     (case a of
        [] \<Rightarrow> (0, False)
      | [x0] \<Rightarrow> (1, False)
      | x0 # x1 # rest \<Rightarrow>
          if py_lt (key x1) (key x0) then (2 + descending_run key x1 rest, True)
          else (2 + ascending_run key x1 rest, False))"

text \<open>
  \<open>binarysort\<close> inserts each remaining element into the sorted prefix \<open>a\<close>, at the position
  that CPython's binary search finds: \<open>r\<close> moves down when the pivot is less than
  the probed element, \<open>l\<close> moves up otherwise. The probed index is below \<open>r\<close>, which is at
  most the length of \<open>a\<close>.
\<close>

function binary_search ::
  "('a \<Rightarrow> ('s::linorder) score) \<Rightarrow> 'a \<Rightarrow> 'a list \<Rightarrow> nat \<Rightarrow> nat \<Rightarrow> nat" where
  "binary_search key pivot a l r =
     (if l < r
      then (let p = l + (r - l) div 2 in
            if py_lt (key pivot) (key (a ! p)) then binary_search key pivot a l p
            else binary_search key pivot a (p + 1) r)
      else l)"
  by pat_completeness auto
termination
  by (relation "measure (\<lambda>(key, pivot, a, l, r). r - l)") auto

declare binary_search.simps [simp del]

fun binarysort :: "('a \<Rightarrow> ('s::linorder) score) \<Rightarrow> 'a list \<Rightarrow> 'a list \<Rightarrow> 'a list" where
  "binarysort key a [] = a"
| "binarysort key a (pivot # rest) =
     (let l = binary_search key pivot a 0 (length a)
      in binarysort key (take l a @ pivot # drop l a) rest)"

text \<open>
  A list of 64 or more elements is cut into several runs, which are merged; when no key is
  \<open>nan\<close> the comparisons are a total preorder and the result is the same list, the only
  stable sorted arrangement. \<open>list_sort\<close> is used for every length; with a \<open>nan\<close> among 64
  or more keys CPython may arrange the list differently.
\<close>

definition list_sort :: "('a \<Rightarrow> ('s::linorder) score) \<Rightarrow> 'a list \<Rightarrow> 'a list" where
  "list_sort key a =
     (if length a < 2 then a
      else (let (n, descending) = count_run key a;
                run = take n a;
                run = (if descending then rev run else run)
            in binarysort key run (drop n a)))"

text \<open>
  \<open>sorted(xs, key=key, reverse=True)\<close>: the list is reversed, sorted, and reversed again.
\<close>

definition py_sorted_reverse :: "('a \<Rightarrow> ('s::linorder) score) \<Rightarrow> 'a list \<Rightarrow> 'a list" where
  "py_sorted_reverse key xs = rev (list_sort key (rev xs))"

section \<open>The offline store: class \<open>Recommendations\<close>\<close>

text \<open>
  \<open>personal\<close> holds the rows \<open>(user_id, track_id)\<close> of the personal table in file order,
  \<open>default_recs\<close> the \<open>track_id\<close> column of the default table.
\<close>

record rec_stats =
  request_personal_count :: nat
  request_default_count :: nat

record rec_store =
  personal :: "(int \<times> int) list"
  default_recs :: "int list"
  stats :: rec_stats

text \<open>
  The pandas expression \<open>self._recs["personal"].loc[user_id]["track_id"].to_list()\<close> on
  the table indexed by \<open>user_id\<close>. A label that is absent raises \<open>KeyError\<close>. A label with
  several rows selects a frame, whose column gives the list of the rows' track ids. A
  label with one row selects that row as a series; its \<open>track_id\<close> is then a number, which
  has no \<open>to_list\<close>, and the call raises \<open>AttributeError\<close>.
\<close>

definition loc_track_ids :: "(int \<times> int) list \<Rightarrow> int \<Rightarrow> py_error + int list" where
  "loc_track_ids df user_id =
     (let rows = filter (\<lambda>row. fst row = user_id) df in
      if rows = [] then Inl KeyError
      else if length rows = 1 then Inl AttributeError
      else Inr (map snd rows))"

definition get :: "rec_store \<Rightarrow> int \<Rightarrow> int \<Rightarrow> int list \<times> rec_store" where
  "get self user_id k =
     (case loc_track_ids (personal self) user_id of
        Inr recs \<Rightarrow>
          (py_slice_to recs k,
           self\<lparr>stats := (stats self)\<lparr>request_personal_count :=
             request_personal_count (stats self) + 1\<rparr>\<rparr>)
      | Inl KeyError \<Rightarrow>
          (py_slice_to (default_recs self) k,
           self\<lparr>stats := (stats self)\<lparr>request_default_count :=
             request_default_count (stats self) + 1\<rparr>\<rparr>)
      | Inl _ \<Rightarrow> ([], self))"

definition recommendations_offline :: "rec_store \<Rightarrow> int \<Rightarrow> int \<Rightarrow> int list \<times> rec_store" where
  "recommendations_offline self user_id k = get self user_id k"

section \<open>Deduplication\<close>

text \<open>
  \<open>dedup_ids\<close> keeps an element when it is not yet in \<open>seen\<close>, and adds it to \<open>seen\<close>.
\<close>

fun dedup_loop :: "int set \<Rightarrow> int list \<Rightarrow> int list" where
  "dedup_loop seen [] = []"
| "dedup_loop seen (x # ids) =
     (if x \<in> seen then dedup_loop seen ids else x # dedup_loop (insert x seen) ids)"

definition dedup_ids :: "int list \<Rightarrow> int list" where
  "dedup_ids ids = dedup_loop {} ids"

section \<open>The upstream services\<close>

text \<open>
  A call \<open>requests.post(...)\<close> raises or gives a response with a status code; \<open>resp.json()\<close>
  raises or gives the body. The bodies are the dictionaries of lists that the history and
  the features service declare as their response model; the numbers of a score are
  values of a linear order. Each service is a function of the request's parameters.
\<close>

datatype 'b response = Response (status_code: nat) (json: "py_error + 'b")

record history_json =
  track_id :: "int list option"

record 's similar_json =
  item_id_2 :: "int list option"
  track_seq :: "'s score list option"

record 's services =
  history_post :: "int \<Rightarrow> int \<Rightarrow> py_error + history_json response"
  similar_items_post :: "int \<Rightarrow> int \<Rightarrow> py_error + 's similar_json response"

section \<open>Online recommendations\<close>

text \<open>
  The loop over the user's events: a call that raises, a status other than 200 and a body
  that does not parse are skipped (\<open>continue\<close>); otherwise \<open>items\<close> and \<open>scores\<close> are
  extended.
\<close>

fun similar_loop ::
  "'s services \<Rightarrow> int \<Rightarrow> int list \<Rightarrow> int list \<times> 's score list \<Rightarrow>
     int list \<times> 's score list" where
  "similar_loop env k [] (items, scores) = (items, scores)"
| "similar_loop env k (tid # events) (items, scores) =
     (case similar_items_post env tid k of
        Inl e \<Rightarrow> similar_loop env k events (items, scores)
      | Inr similar_items_resp \<Rightarrow>
          if status_code similar_items_resp \<noteq> 200
          then similar_loop env k events (items, scores)
          else (case json similar_items_resp of
                  Inl e \<Rightarrow> similar_loop env k events (items, scores)
                | Inr item_similar_items \<Rightarrow>
                    similar_loop env k events
                      (items @ dict_get (item_id_2 item_similar_items),
                       scores @ dict_get (track_seq item_similar_items))))"

text \<open>The body of the \<open>try\<close> block of \<open>recommendations_online\<close>.\<close>

definition recommendations_online_try ::
  "('s::linorder) services \<Rightarrow> int \<Rightarrow> int \<Rightarrow> py_error + int list" where
  "recommendations_online_try env user_id k =
     (case history_post env user_id 3 of
        Inl e \<Rightarrow> Inl e
      | Inr resp \<Rightarrow>
          if status_code resp \<noteq> 200 then Inr []
          else (case json resp of
                  Inl e \<Rightarrow> Inl e
                | Inr events_json \<Rightarrow>
                    (let events = dict_get (track_id events_json) in
                     if events = [] then Inr []
                     else
                       (let (items, scores) = similar_loop env k events ([], []);
                            combined = zip items scores;
                            combined = py_sorted_reverse snd combined;
                            combined = map fst combined;
                            recs = dedup_ids combined
                        in Inr recs))))"

text \<open>The endpoint: \<open>except Exception\<close> returns the empty list.\<close>

definition recommendations_online ::
  "('s::linorder) services \<Rightarrow> int \<Rightarrow> int \<Rightarrow> py_error + int list" where
  "recommendations_online env user_id k =
     (case recommendations_online_try env user_id k of
        Inl e \<Rightarrow> Inr []
      | Inr recs \<Rightarrow> Inr recs)"

section \<open>Blended recommendations\<close>

text \<open>
  Lines 274 to 288 of \<open>recommendations\<close>: the loop over \<open>range(min_length)\<close>, the two
  \<open>extend\<close> calls, \<open>dedup_ids\<close> and the slice \<open>[:k]\<close>. The indices of the loop are below both
  lengths, so no read is out of range.
\<close>

definition blend :: "int list \<Rightarrow> int list \<Rightarrow> int \<Rightarrow> int list" where
  "blend recs_offline recs_online k =
     (let min_length = min (length recs_offline) (length recs_online);
          recs_blended =
            fold (\<lambda>i acc. acc @ [recs_offline ! i] @ [recs_online ! i]) [0..<min_length] [];
          recs_blended = recs_blended @ drop min_length recs_offline;
          recs_blended = recs_blended @ drop min_length recs_online;
          recs_blended = dedup_ids recs_blended
      in py_slice_to recs_blended k)"

text \<open>
  The body of the \<open>try\<close> block of \<open>recommendations\<close>. Both results are lists by construction,
  so the two \<open>isinstance\<close> checks pass and neither \<open>HTTPException\<close> is raised. The counters of
  the offline store are updated before anything else can fail.
\<close>

definition recommendations_try ::
  "('s::linorder) services \<Rightarrow> rec_store \<Rightarrow> int \<Rightarrow> int \<Rightarrow> (py_error + int list) \<times> rec_store" where
  "recommendations_try env self user_id k =
     (let (recs_offline, self') = recommendations_offline self user_id k in
      (case recommendations_online env user_id k of
         Inl e \<Rightarrow> (Inl e, self')
       | Inr recs_online \<Rightarrow> (Inr (blend recs_offline recs_online k), self')))"

definition recommendations ::
  "('s::linorder) services \<Rightarrow> rec_store \<Rightarrow> int \<Rightarrow> int \<Rightarrow> (py_error + int list) \<times> rec_store" where
  "recommendations env self user_id k =
     (case recommendations_try env self user_id k of
        (Inl e, self') \<Rightarrow> (Inr [], self')
      | (Inr recs_blended, self') \<Rightarrow> (Inr recs_blended, self'))"

section \<open>The specification's notions\<close>

text \<open>
  Deduplication as the specification words it: keep the first occurrence of each
  identifier, drop every later one.
\<close>

fun first_occurrences :: "'a list \<Rightarrow> 'a list" where
  "first_occurrences [] = []"
| "first_occurrences (x # xs) = x # first_occurrences (removeAll x xs)"

text \<open>
  The Blender of the specification: with \<open>m\<close> the smaller length, the pairs
  \<open>offline[i], online[i]\<close> for \<open>i < m\<close>, then the remainder of the longer list, then
  deduplication by first occurrence, then the first \<open>k\<close> entries.
\<close>

definition blend_spec :: "int list \<Rightarrow> int list \<Rightarrow> int \<Rightarrow> int list" where
  "blend_spec offline online k =
     (let m = min (length offline) (length online);
          paired = concat (map (\<lambda>i. [offline ! i, online ! i]) [0..<m]);
          remainder = (if length online \<le> length offline then drop m offline else drop m online)
      in take (nat k) (first_occurrences (paired @ remainder)))"

text \<open>
  The tracks of the user's history that the online assembly iterates over: the list under
  \<open>track_id\<close> of a history response with status 200, and no track otherwise.
\<close>

definition history_tracks :: "'s services \<Rightarrow> int \<Rightarrow> int list" where
  "history_tracks env user_id =
     (case history_post env user_id 3 of
        Inl e \<Rightarrow> []
      | Inr resp \<Rightarrow>
          if status_code resp \<noteq> 200 then []
          else (case json resp of Inl e \<Rightarrow> [] | Inr events_json \<Rightarrow> dict_get (track_id events_json)))"

text \<open>
  A similarity call that failed (it raised, its status is not 200, its body does not
  parse) or that returned no item.
\<close>

definition similar_unavailable :: "py_error + 's similar_json response \<Rightarrow> bool" where
  "similar_unavailable r =
     (case r of
        Inl e \<Rightarrow> True
      | Inr resp \<Rightarrow>
          status_code resp \<noteq> 200 \<or>
          (case json resp of Inl e \<Rightarrow> True | Inr body \<Rightarrow> dict_get (item_id_2 body) = []))"

text \<open>
  What one similarity call adds to \<open>items\<close> and to \<open>scores\<close>: nothing when it failed.
\<close>

definition returned_items :: "py_error + 's similar_json response \<Rightarrow> int list" where
  "returned_items r =
     (case r of
        Inl e \<Rightarrow> []
      | Inr resp \<Rightarrow>
          if status_code resp \<noteq> 200 then []
          else (case json resp of Inl e \<Rightarrow> [] | Inr body \<Rightarrow> dict_get (item_id_2 body)))"

definition returned_scores :: "py_error + 's similar_json response \<Rightarrow> 's score list" where
  "returned_scores r =
     (case r of
        Inl e \<Rightarrow> []
      | Inr resp \<Rightarrow>
          if status_code resp \<noteq> 200 then []
          else (case json resp of Inl e \<Rightarrow> [] | Inr body \<Rightarrow> dict_get (track_seq body)))"

text \<open>
  The pairs pooled by the online assembly for a user, \<open>zip items scores\<close> after the loop
  over the history tracks, and the pairs as ranked by the sort.
\<close>

definition pooled_pairs :: "'s services \<Rightarrow> int \<Rightarrow> int \<Rightarrow> (int \<times> 's score) list" where
  "pooled_pairs env user_id k =
     (case similar_loop env k (history_tracks env user_id) ([], []) of
        (items, scores) \<Rightarrow> zip items scores)"

definition ranked_pairs ::
  "('s::linorder) services \<Rightarrow> int \<Rightarrow> int \<Rightarrow> (int \<times> 's score) list" where
  "ranked_pairs env user_id k = py_sorted_reverse snd (pooled_pairs env user_id k)"

text \<open>
  Python's \<open><=\<close> on scores, a list of pairs in descending order of score, and the pairs of
  a list that have a given score, in the order of the list.
\<close>

fun py_le :: "('s::linorder) score \<Rightarrow> 's score \<Rightarrow> bool" where
  "py_le (Num a) (Num b) = (a \<le> b)"
| "py_le _ _ = False"

definition score_descending :: "('a \<times> ('s::linorder) score) list \<Rightarrow> bool" where
  "score_descending ps = sorted_wrt (\<lambda>p q. py_le (snd q) (snd p)) ps"

definition pairs_with_score :: "'s score \<Rightarrow> ('a \<times> 's score) list \<Rightarrow> ('a \<times> 's score) list" where
  "pairs_with_score s ps = filter (\<lambda>p. snd p = s) ps"

text \<open>
  Concrete stores and services, used to evaluate the model. User 2 has a personal list,
  the other users have none; user 3 has a history of two tracks; the services return the
  first \<open>k\<close> rows they hold, as \<open>head(k)\<close> does in the history and features services.
\<close>

definition example_store :: rec_store where
  "example_store =
     \<lparr>personal = [(2, 11), (2, 12), (2, 13), (2, 14)],
      default_recs = [1, 2, 3, 4, 5],
      stats = \<lparr>request_personal_count = 0, request_default_count = 0\<rparr>\<rparr>"

definition example_services :: "int services" where
  "example_services =
     \<lparr>history_post = (\<lambda>user_id k.
        Inr (Response 200 (Inr \<lparr>track_id =
          Some (if user_id = 3 then py_slice_to [101, 102] k else [])\<rparr>))),
      similar_items_post = (\<lambda>item_id k.
        Inr (Response 200 (Inr
          (if item_id = 101
           then \<lparr>item_id_2 = Some (py_slice_to [10, 11] k),
                 track_seq = Some (py_slice_to [Num 9, Num 7] k)\<rparr>
           else if item_id = 102
           then \<lparr>item_id_2 = Some (py_slice_to [20, 21] k),
                 track_seq = Some (py_slice_to [Num 8, Num 6] k)\<rparr>
           else \<lparr>item_id_2 = Some [], track_seq = Some []\<rparr>))))\<rparr>"

definition failing_services :: "int services" where
  "failing_services =
     \<lparr>history_post = history_post example_services,
      similar_items_post = (\<lambda>item_id k.
        if item_id = 101 then Inl RequestException
        else Inr (Response 500 (Inl JSONDecodeError)))\<rparr>"

text \<open>
  A store in which user 7 has a single personal row; services whose two history tracks
  return candidates with tied scores; and services whose similarity answer holds a
  \<open>nan\<close> score.
\<close>

definition single_row_store :: rec_store where
  "single_row_store =
     \<lparr>personal = [(2, 11), (2, 12), (7, 70)],
      default_recs = [1, 2, 3, 4, 5],
      stats = \<lparr>request_personal_count = 0, request_default_count = 0\<rparr>\<rparr>"

definition tied_services :: "int services" where
  "tied_services =
     \<lparr>history_post = history_post example_services,
      similar_items_post = (\<lambda>item_id k.
        Inr (Response 200 (Inr
          (if item_id = 101
           then \<lparr>item_id_2 = Some (py_slice_to [10, 11] k),
                 track_seq = Some (py_slice_to [Num 5, Num 7] k)\<rparr>
           else \<lparr>item_id_2 = Some (py_slice_to [20, 21] k),
                 track_seq = Some (py_slice_to [Num 7, Num 5] k)\<rparr>))))\<rparr>"

definition nan_services :: "int services" where
  "nan_services =
     \<lparr>history_post = (\<lambda>user_id k.
        Inr (Response 200 (Inr \<lparr>track_id = Some (py_slice_to [101] k)\<rparr>))),
      similar_items_post = (\<lambda>item_id k.
        Inr (Response 200 (Inr
          \<lparr>item_id_2 = Some (py_slice_to [10, 11, 12, 13, 14, 15, 16] k),
           track_seq = Some (py_slice_to [Num 1, Num 1, Num 1, Num 1, NaN, Num 1, Num 2] k)\<rparr>)))\<rparr>"

section \<open>Properties\<close>

lemma py_slice_to_nonneg: "0 \<le> k \<Longrightarrow> py_slice_to xs k = take (nat k) xs"
  by (simp add: py_slice_to_def)

lemma removeAll_filter_notin:
  "removeAll x (filter (\<lambda>y. y \<notin> seen) xs) = filter (\<lambda>y. y \<notin> insert x seen) xs"
  by (induction xs) auto

lemma dedup_loop_first_occurrences:
  "dedup_loop seen ids = first_occurrences (filter (\<lambda>y. y \<notin> seen) ids)"
proof (induction ids arbitrary: seen)
  case Nil
  show ?case by simp
next
  case (Cons x ids)
  show ?case
  proof (cases "x \<in> seen")
    case True
    then show ?thesis using Cons.IH [of seen] by simp
  next
    case False
    have "removeAll x (filter (\<lambda>y. y \<notin> seen) ids) = filter (\<lambda>y. y \<notin> insert x seen) ids"
      by (rule removeAll_filter_notin)
    then show ?thesis using False Cons.IH [of "insert x seen"] by simp
  qed
qed

lemma dedup_ids_first_occurrences: "dedup_ids ids = first_occurrences ids"
  by (simp add: dedup_ids_def dedup_loop_first_occurrences)

lemma set_first_occurrences: "set (first_occurrences xs) = set xs"
  by (induction xs rule: first_occurrences.induct) auto

lemma distinct_first_occurrences: "distinct (first_occurrences xs)"
  by (induction xs rule: first_occurrences.induct) (auto simp: set_first_occurrences)

lemma fold_append_concat:
  "fold (\<lambda>i acc. acc @ f i) is acc0 = acc0 @ concat (map f is)"
  by (induction "is" arbitrary: acc0) auto


lemma blend_unfold:
  "blend offline online k =
     py_slice_to (first_occurrences
       (concat (map (\<lambda>i. [offline ! i, online ! i]) [0..<min (length offline) (length online)])
        @ drop (min (length offline) (length online)) offline
        @ drop (min (length offline) (length online)) online)) k"
  by (simp add: blend_def Let_def dedup_ids_first_occurrences fold_append_concat)

lemma blend_remainder:
  "drop (min (length offline) (length online)) offline
     @ drop (min (length offline) (length online)) online
   = (if length online \<le> length offline
      then drop (min (length offline) (length online)) offline
      else drop (min (length offline) (length online)) online)"
  by (simp add: min_def)

lemma set_interleaved:
  "set (concat (map (\<lambda>i. [offline ! i, online ! i]) [0..<min (length offline) (length online)]))
     \<subseteq> set offline \<union> set online"
  by auto

lemma recommendations_online_returns: "\<exists>recs. recommendations_online env user_id k = Inr recs"
  by (simp add: recommendations_online_def split: sum.split)

lemma recommendations_returns_blend:
  "\<exists>recs_online. recommendations_online env user_id k = Inr recs_online \<and>
     fst (recommendations env self user_id k) =
       Inr (blend (fst (recommendations_offline self user_id k)) recs_online k)"
proof -
  obtain recs_online where on: "recommendations_online env user_id k = Inr recs_online"
    using recommendations_online_returns by blast
  have "fst (recommendations env self user_id k) =
       Inr (blend (fst (recommendations_offline self user_id k)) recs_online k)"
    by (simp add: recommendations_def recommendations_try_def on split: prod.split)
  with on show ?thesis by blast
qed

text \<open>
  Claim C1. For \<open>k \<ge> 0\<close> the blend computed by \<open>recommendations\<close> is the specification's
  interleave, append, deduplicate, truncate. In particular \<open>[A,B,C]\<close> and \<open>[X,Y]\<close> with
  \<open>k = 10\<close> and five distinct identifiers give \<open>[A,X,B,Y,C]\<close>, and \<open>[A,B]\<close> and \<open>[A,C]\<close> give
  \<open>[A,B,C]\<close> when \<open>k\<close> leaves room for three entries.
\<close>

theorem blend_is_interleave_dedup_truncate:
  "(0 \<le> k \<longrightarrow> blend offline online k = blend_spec offline online k) \<and>
   (distinct [a, b, c, x, y] \<longrightarrow> blend [a, b, c] [x, y] 10 = [a, x, b, y, c]) \<and>
   (distinct [a, b, c] \<and> 3 \<le> k' \<longrightarrow> blend [a, b] [a, c] k' = [a, b, c])"
proof (intro conjI impI)
  assume k: "0 \<le> k"
  show "blend offline online k = blend_spec offline online k"
    unfolding blend_unfold blend_remainder blend_spec_def Let_def
    using k by (simp only: py_slice_to_nonneg)
next
  assume "distinct [a, b, c, x, y]"
  then have ne: "a \<noteq> b" "a \<noteq> c" "a \<noteq> x" "a \<noteq> y" "b \<noteq> c" "b \<noteq> x" "b \<noteq> y"
    "c \<noteq> x" "c \<noteq> y" "x \<noteq> y"
    by simp_all
  have u: "[0..<min (length [a, b, c]) (length [x, y])] = [0, Suc 0]"
    by (simp add: upt_rec)
  show "blend [a, b, c] [x, y] 10 = [a, x, b, y, c]"
    unfolding blend_unfold u using ne by (simp add: py_slice_to_def)
next
  assume h: "distinct [a, b, c] \<and> 3 \<le> k'"
  then have "3 \<le> k'"
    by simp
  then have n: "Suc (Suc (Suc 0)) \<le> nat k'"
    by linarith
  have u: "[0..<min (length [a, b]) (length [a, c])] = [0, Suc 0]"
    by (simp add: upt_rec)
  show "blend [a, b] [a, c] k' = [a, b, c]"
    unfolding blend_unfold u using h n by (simp add: py_slice_to_def)
qed

theorem blend_is_interleave_dedup_truncate_witness:
  "blend [1, 2, 3] [7, 8] 10 = blend_spec [1, 2, 3] [7, 8] 10 \<and>
   blend [1, 2, 3] [7, 8] 10 = [1, 7, 2, 8, 3] \<and>
   blend [1, 2] [1, 3] 3 = [1, 2, 3]"
proof -
  have h1: "(0::int) \<le> 10"
    by simp
  have h2: "distinct [1::int, 2, 3, 7, 8]"
    by simp
  have h3: "distinct [1::int, 2, 3] \<and> (3::int) \<le> 3"
    by simp
  show ?thesis
    using blend_is_interleave_dedup_truncate [of 10 "[1, 2, 3]" "[7, 8]" 1 2 3 7 8 3] h1 h2 h3
    by blast
qed

text \<open>
  Claim C2. For all input lists and every \<open>k\<close> (negative ones too) the blend holds no
  identifier twice, and so does the list that the endpoint returns.
\<close>

theorem blend_distinct:
  "distinct (blend offline online k) \<and>
   (\<exists>recs. fst (recommendations env self user_id k) = Inr recs \<and> distinct recs)"
proof
  show d: "distinct (blend offline online k)" for offline online
    by (simp add: blend_unfold py_slice_to_def distinct_first_occurrences)
  show "\<exists>recs. fst (recommendations env self user_id k) = Inr recs \<and> distinct recs"
    using recommendations_returns_blend [of env user_id k self] d by auto
qed

lemma first_occurrences_hd:
  "xs \<noteq> [] \<Longrightarrow> \<exists>ys. first_occurrences xs = hd xs # ys"
  by (cases xs) simp_all

lemma interleaved_hd:
  assumes "offline \<noteq> []"
  shows "\<exists>ys. concat (map (\<lambda>i. [offline ! i, online ! i]) [0..<min (length offline) (length online)])
        @ drop (min (length offline) (length online)) offline
        @ drop (min (length offline) (length online)) online = hd offline # ys"
proof (cases online)
  case Nil
  with assms show ?thesis by (cases offline) simp_all
next
  case (Cons b on')
  obtain a off' where off: "offline = a # off'"
    using assms by (cases offline) auto
  have m: "min (length offline) (length online) = Suc (min (length off') (length on'))"
    by (simp add: off Cons)
  have u: "[0..<Suc n] = 0 # [Suc 0..<Suc n]" for n
    by (rule upt_conv_Cons) simp
  show ?thesis
    unfolding m u by (simp add: off Cons)
qed

text \<open>
  Claim C9. When the offline list is not empty and \<open>k \<ge> 1\<close>, the blend is not empty and
  starts with the first element of the offline list.
\<close>

theorem blend_first_is_offline_first:
  assumes "offline \<noteq> []" and "1 \<le> k"
  shows "blend offline online k \<noteq> [] \<and> hd (blend offline online k) = hd offline"
proof -
  obtain ys where "concat (map (\<lambda>i. [offline ! i, online ! i]) [0..<min (length offline) (length online)])
        @ drop (min (length offline) (length online)) offline
        @ drop (min (length offline) (length online)) online = hd offline # ys"
    using interleaved_hd [OF assms(1)] by blast
  then have b: "blend offline online k = py_slice_to (hd offline # first_occurrences (removeAll (hd offline) ys)) k"
    by (simp add: blend_unfold)
  obtain n where n: "nat k = Suc n"
    using assms(2) by (cases "nat k") auto
  show ?thesis
    using assms(2) by (simp add: b py_slice_to_def n)
qed

theorem blend_first_is_offline_first_witness:
  "[1, 2, 3] \<noteq> ([] :: int list) \<and> (1::int) \<le> 1 \<and>
   blend [1, 2, 3] [7, 8] 1 \<noteq> [] \<and> hd (blend [1, 2, 3] [7, 8] 1) = hd [1, 2, 3]"
proof -
  have h1: "[1, 2, 3] \<noteq> ([] :: int list)"
    by simp
  have h2: "(1::int) \<le> 1"
    by simp
  show ?thesis
    using blend_first_is_offline_first [OF h1 h2, of "[7, 8]"] h1 h2 by blast
qed

lemma set_py_slice_to: "set (py_slice_to xs k) \<subseteq> set xs"
  unfolding py_slice_to_def by (rule set_take_subset)

lemma set_blend: "set (blend offline online k) \<subseteq> set offline \<union> set online"
proof -
  let ?m = "min (length offline) (length online)"
  let ?paired = "concat (map (\<lambda>i. [offline ! i, online ! i]) [0..<?m])"
  have 1: "set ?paired \<subseteq> set offline \<union> set online"
    by (rule set_interleaved)
  have 2: "set (drop ?m offline) \<subseteq> set offline"
    by (rule set_drop_subset)
  have 3: "set (drop ?m online) \<subseteq> set online"
    by (rule set_drop_subset)
  have "set (?paired @ drop ?m offline @ drop ?m online) =
      set ?paired \<union> set (drop ?m offline) \<union> set (drop ?m online)"
    by (simp only: set_append Un_assoc)
  with 1 2 3 have "set (?paired @ drop ?m offline @ drop ?m online) \<subseteq> set offline \<union> set online"
    by blast
  then have "set (first_occurrences (?paired @ drop ?m offline @ drop ?m online))
      \<subseteq> set offline \<union> set online"
    by (simp only: set_first_occurrences)
  moreover have "set (blend offline online k)
      \<subseteq> set (first_occurrences (?paired @ drop ?m offline @ drop ?m online))"
    unfolding blend_unfold by (rule set_py_slice_to)
  ultimately show ?thesis
    by (rule order_trans [rotated])
qed

text \<open>
  Claim C10. Every identifier of the blend occurs in the offline list or in the online
  list; at the endpoint these are the lists returned by \<open>recommendations_offline\<close> and
  \<open>recommendations_online\<close>.
\<close>

theorem blend_ids_from_inputs:
  "set (blend offline online k) \<subseteq> set offline \<union> set online \<and>
   (\<exists>recs_online recs.
      recommendations_online env user_id k = Inr recs_online \<and>
      fst (recommendations env self user_id k) = Inr recs \<and>
      set recs \<subseteq> set (fst (recommendations_offline self user_id k)) \<union> set recs_online)"
proof
  show "set (blend offline online k) \<subseteq> set offline \<union> set online"
    by (rule set_blend)
  obtain recs_online where on: "recommendations_online env user_id k = Inr recs_online"
    and r: "fst (recommendations env self user_id k) =
       Inr (blend (fst (recommendations_offline self user_id k)) recs_online k)"
    using recommendations_returns_blend [of env user_id k self] by blast
  have "set (blend (fst (recommendations_offline self user_id k)) recs_online k)
      \<subseteq> set (fst (recommendations_offline self user_id k)) \<union> set recs_online"
    by (rule set_blend)
  with on r show "\<exists>recs_online recs.
      recommendations_online env user_id k = Inr recs_online \<and>
      fst (recommendations env self user_id k) = Inr recs \<and>
      set recs \<subseteq> set (fst (recommendations_offline self user_id k)) \<union> set recs_online"
    by blast
qed

lemma length_blend: "0 \<le> k \<Longrightarrow> length (blend offline online k) \<le> nat k"
  by (simp add: blend_unfold py_slice_to_def)

text \<open>
  Claim C3. For \<open>k \<ge> 0\<close> the blend, and the list the endpoint returns, have at most \<open>k\<close>
  entries; for \<open>k = 0\<close> they are empty.
\<close>

theorem blend_length_le_k:
  "(0 \<le> k \<longrightarrow>
      length (blend offline online k) \<le> nat k \<and>
      (\<exists>recs. fst (recommendations env self user_id k) = Inr recs \<and> length recs \<le> nat k)) \<and>
   blend offline online 0 = [] \<and>
   fst (recommendations env self user_id 0) = Inr []"
proof (intro conjI impI)
  assume k: "0 \<le> k"
  then show "length (blend offline online k) \<le> nat k"
    by (rule length_blend)
  obtain recs_online where r: "fst (recommendations env self user_id k) =
       Inr (blend (fst (recommendations_offline self user_id k)) recs_online k)"
    using recommendations_returns_blend [of env user_id k self] by blast
  show "\<exists>recs. fst (recommendations env self user_id k) = Inr recs \<and> length recs \<le> nat k"
    using r length_blend [OF k] by simp
next
  show z: "blend offline online 0 = []" for offline online
    by (simp add: blend_unfold py_slice_to_def)
  obtain recs_online where "fst (recommendations env self user_id 0) =
       Inr (blend (fst (recommendations_offline self user_id 0)) recs_online 0)"
    using recommendations_returns_blend [of env user_id 0 self] by blast
  then show "fst (recommendations env self user_id 0) = Inr []"
    by (simp add: z)
qed

theorem blend_length_le_k_witness:
  "(0::int) \<le> 2 \<and>
   length (blend [1, 2, 3] [7, 8] 2) \<le> nat 2 \<and>
   (\<exists>recs. fst (recommendations example_services example_store 3 2) = Inr recs \<and>
      length recs \<le> nat 2) \<and>
   blend [1, 2, 3] [7, 8] 0 = [] \<and>
   fst (recommendations example_services example_store 3 0) = Inr []"
proof -
  have h: "(0::int) \<le> 2"
    by simp
  show ?thesis
    using blend_length_le_k [of 2 "[1, 2, 3]" "[7, 8]" example_services example_store 3] h
    by blast
qed

lemma similar_loop_pools_in_order:
  "similar_loop env k events (items, scores) =
     (items @ concat (map (\<lambda>tid. returned_items (similar_items_post env tid k)) events),
      scores @ concat (map (\<lambda>tid. returned_scores (similar_items_post env tid k)) events))"
proof (induction events arbitrary: items scores)
  case Nil
  show ?case by simp
next
  case (Cons tid events)
  show ?case
    by (simp add: Cons.IH returned_items_def returned_scores_def split: sum.split)
qed

lemma binary_search_done: "\<not> l < r \<Longrightarrow> binary_search key pivot a l r = l"
  by (simp add: binary_search.simps)

lemma binary_search_left:
  "l < r \<Longrightarrow> py_lt (key pivot) (key (a ! (l + (r - l) div 2))) \<Longrightarrow>
   binary_search key pivot a l r = binary_search key pivot a l (l + (r - l) div 2)"
  by (subst binary_search.simps) (simp add: Let_def)

lemma binary_search_right:
  "l < r \<Longrightarrow> \<not> py_lt (key pivot) (key (a ! (l + (r - l) div 2))) \<Longrightarrow>
   binary_search key pivot a l r = binary_search key pivot a (Suc (l + (r - l) div 2)) r"
  by (subst binary_search.simps) (simp add: Let_def)


lemma binarysort_step:
  "binarysort key a (pivot # rest) =
     binarysort key
       (take (binary_search key pivot a 0 (length a)) a @
        pivot # drop (binary_search key pivot a 0 (length a)) a) rest"
  by (simp add: Let_def)

lemma list_sort_step:
  "list_sort key a =
     (if length a < 2 then a
      else binarysort key
        (if snd (count_run key a) then rev (take (fst (count_run key a)) a)
         else take (fst (count_run key a)) a)
        (drop (fst (count_run key a)) a))"
  by (simp add: list_sort_def Let_def split: prod.split)

lemmas sort_eval = py_sorted_reverse_def list_sort_step count_run_def binarysort_step
  binary_search_done binary_search_left binary_search_right

lemma binary_search_bounds:
  assumes "sorted (map f a)" and "\<forall>x\<in>set a. key x = Num (f x)" and "key pivot = Num (f pivot)"
    and "l \<le> r" and "r \<le> length a"
    and "\<forall>i<l. f (a ! i) \<le> f pivot"
    and "\<forall>i. r \<le> i \<and> i < length a \<longrightarrow> f pivot < f (a ! i)"
  shows "binary_search key pivot a l r \<le> length a \<and>
         (\<forall>i<binary_search key pivot a l r. f (a ! i) \<le> f pivot) \<and>
         (\<forall>i. binary_search key pivot a l r \<le> i \<and> i < length a \<longrightarrow> f pivot < f (a ! i))"
  using assms
proof (induction key pivot a l r rule: binary_search.induct)
  case (1 key pivot a l r)
  show ?case
  proof (cases "l < r")
    case False
    then have "l = r"
      using "1.prems"(4) by simp
    then show ?thesis
      using "1.prems" by (simp add: binary_search.simps)
  next
    case True
    define p where "p = l + (r - l) div 2"
    have lp: "l \<le> p"
      by (simp add: p_def)
    have pr: "p < r"
      using True unfolding p_def by linarith
    have pa: "p < length a"
      using pr "1.prems"(5) by simp
    have kp: "key (a ! p) = Num (f (a ! p))"
      using "1.prems"(2) pa by simp
    have mono: "i \<le> j \<Longrightarrow> j < length a \<Longrightarrow> f (a ! i) \<le> f (a ! j)" for i j
      using "1.prems"(1) by (simp add: sorted_iff_nth_mono)
    show ?thesis
    proof (cases "py_lt (key pivot) (key (a ! p))")
      case lt: True
      then have less: "f pivot < f (a ! p)"
        using kp "1.prems"(3) by simp
      have up: "\<forall>i. p \<le> i \<and> i < length a \<longrightarrow> f pivot < f (a ! i)"
        using less mono by (meson less_le_trans)
      have eq: "binary_search key pivot a l r = binary_search key pivot a l p"
        using True lt by (subst binary_search.simps) (simp add: Let_def p_def)
      have "binary_search key pivot a l p \<le> length a \<and>
         (\<forall>i<binary_search key pivot a l p. f (a ! i) \<le> f pivot) \<and>
         (\<forall>i. binary_search key pivot a l p \<le> i \<and> i < length a \<longrightarrow> f pivot < f (a ! i))"
        using "1.IH"(1) [OF True p_def lt "1.prems"(1) "1.prems"(2) "1.prems"(3) lp _ "1.prems"(6) up]
          pa by simp
      then show ?thesis
        unfolding eq .
    next
      case ge: False
      then have le: "f (a ! p) \<le> f pivot"
        using kp "1.prems"(3) by simp
      have low: "\<forall>i<p + 1. f (a ! i) \<le> f pivot"
      proof (intro allI impI)
        fix i assume "i < p + 1"
        then have "i \<le> p" by simp
        then have "f (a ! i) \<le> f (a ! p)"
          using mono pa by simp
        then show "f (a ! i) \<le> f pivot"
          using le by simp
      qed
      have eq: "binary_search key pivot a l r = binary_search key pivot a (p + 1) r"
        using True ge by (subst binary_search.simps) (simp add: Let_def p_def)
      have "p + 1 \<le> r"
        using pr by simp
      then have "binary_search key pivot a (p + 1) r \<le> length a \<and>
         (\<forall>i<binary_search key pivot a (p + 1) r. f (a ! i) \<le> f pivot) \<and>
         (\<forall>i. binary_search key pivot a (p + 1) r \<le> i \<and> i < length a \<longrightarrow> f pivot < f (a ! i))"
        using "1.IH"(2) [OF True p_def ge "1.prems"(1) "1.prems"(2) "1.prems"(3) _ "1.prems"(5) low
            "1.prems"(7)]
        by simp
      then show ?thesis
        unfolding eq .
    qed
  qed
qed

lemma insert_sorted:
  assumes "sorted (map f a)" and "m \<le> length a"
    and "\<forall>i<m. f (a ! i) \<le> f pivot"
    and "\<forall>i. m \<le> i \<and> i < length a \<longrightarrow> f pivot < f (a ! i)"
  shows "sorted (map f (take m a @ pivot # drop m a))"
    and "mset (take m a @ pivot # drop m a) = add_mset pivot (mset a)"
    and "filter (\<lambda>x. f x = v) (take m a @ pivot # drop m a) = filter (\<lambda>x. f x = v) (a @ [pivot])"
proof -
  have lo: "\<forall>x\<in>set (take m a). f x \<le> f pivot"
  proof
    fix x assume "x \<in> set (take m a)"
    then obtain i where "i < length (take m a)" and "take m a ! i = x"
      by (auto simp: in_set_conv_nth)
    then show "f x \<le> f pivot"
      using assms(2,3) by auto
  qed
  have hi: "\<forall>x\<in>set (drop m a). f pivot < f x"
  proof
    fix x assume "x \<in> set (drop m a)"
    then obtain i where i: "i < length (drop m a)" and x: "drop m a ! i = x"
      by (auto simp: in_set_conv_nth)
    have "f pivot < f (a ! (m + i))"
      using assms(4) i by simp
    then show "f pivot < f x"
      using x assms(2) by simp
  qed
  have split: "take m a @ drop m a = a"
    by simp
  have "sorted (map f (take m a @ drop m a))"
    using assms(1) by simp
  then have st: "sorted (map f (take m a))" and sd: "sorted (map f (drop m a))"
    and cross: "\<forall>x\<in>set (take m a). \<forall>y\<in>set (drop m a). f x \<le> f y"
    unfolding map_append sorted_append by auto
  show "sorted (map f (take m a @ pivot # drop m a))"
    unfolding map_append sorted_append using st sd lo hi cross by (auto simp: less_imp_le)
  have "mset (take m a @ pivot # drop m a) = add_mset pivot (mset (take m a @ drop m a))"
    by (simp del: append_take_drop_id)
  then show "mset (take m a @ pivot # drop m a) = add_mset pivot (mset a)"
    by (simp only: split)
  have tail: "f pivot = v \<Longrightarrow> filter (\<lambda>x. f x = v) (drop m a) = []"
    using hi by (auto simp: filter_empty_conv)
  have "filter (\<lambda>x. f x = v) (a @ [pivot]) =
      filter (\<lambda>x. f x = v) (take m a) @ filter (\<lambda>x. f x = v) (drop m a) @ filter (\<lambda>x. f x = v) [pivot]"
    by (metis append_assoc filter_append split)
  then show "filter (\<lambda>x. f x = v) (take m a @ pivot # drop m a) = filter (\<lambda>x. f x = v) (a @ [pivot])"
    using tail by (cases "f pivot = v") simp_all
qed

lemma binarysort_sorted_stable:
  assumes "sorted (map f a)" and "\<forall>x\<in>set a \<union> set rest. key x = Num (f x)"
  shows "sorted (map f (binarysort key a rest)) \<and>
         mset (binarysort key a rest) = mset a + mset rest \<and>
         (\<forall>v. filter (\<lambda>x. f x = v) (binarysort key a rest) = filter (\<lambda>x. f x = v) (a @ rest))"
  using assms
proof (induction rest arbitrary: a)
  case Nil
  then show ?case by simp
next
  case (Cons pivot rest)
  define m where "m = binary_search key pivot a 0 (length a)"
  define a' where "a' = take m a @ pivot # drop m a"
  have keys: "\<forall>x\<in>set a. key x = Num (f x)" and kp: "key pivot = Num (f pivot)"
    using Cons.prems(2) by simp_all
  have b: "m \<le> length a \<and> (\<forall>i<m. f (a ! i) \<le> f pivot) \<and>
      (\<forall>i. m \<le> i \<and> i < length a \<longrightarrow> f pivot < f (a ! i))"
    unfolding m_def
    by (rule binary_search_bounds [OF Cons.prems(1) keys kp]) auto
  have s': "sorted (map f a')"
    unfolding a'_def using insert_sorted(1) [OF Cons.prems(1)] b by blast
  have m': "mset a' = add_mset pivot (mset a)"
    unfolding a'_def using insert_sorted(2) [OF Cons.prems(1)] b by blast
  have f': "filter (\<lambda>x. f x = v) a' = filter (\<lambda>x. f x = v) (a @ [pivot])" for v
    unfolding a'_def using insert_sorted(3) [OF Cons.prems(1)] b by blast
  have "set a' = insert pivot (set a)"
    using m' by (metis set_mset_add_mset_insert set_mset_mset)
  then have keys': "\<forall>x\<in>set a' \<union> set rest. key x = Num (f x)"
    using Cons.prems(2) by auto
  have step: "binarysort key a (pivot # rest) = binarysort key a' rest"
    by (simp add: Let_def m_def a'_def)
  have ih: "sorted (map f (binarysort key a' rest)) \<and>
      mset (binarysort key a' rest) = mset a' + mset rest \<and>
      (\<forall>v. filter (\<lambda>x. f x = v) (binarysort key a' rest) = filter (\<lambda>x. f x = v) (a' @ rest))"
    by (rule Cons.IH [OF s' keys'])
  show ?case
    unfolding step using ih m' f' by simp
qed


lemma ascending_run_sorted:
  "\<forall>x\<in>set (prev # xs). key x = Num (f x) \<Longrightarrow>
   sorted (map f (prev # take (ascending_run key prev xs) xs))"
proof (induction xs arbitrary: prev)
  case Nil
  show ?case by simp
next
  case (Cons x xs)
  have kx: "key x = Num (f x)" and kp: "key prev = Num (f prev)"
    using Cons.prems by simp_all
  have ih: "sorted (map f (x # take (ascending_run key x xs) xs))"
    using Cons.IH [of x] Cons.prems by simp
  show ?case
  proof (cases "py_lt (key x) (key prev)")
    case True
    then show ?thesis by simp
  next
    case False
    then have "f prev \<le> f x"
      using kx kp by simp
    then show ?thesis
      using False ih by (auto intro: order_trans)
  qed
qed

lemma descending_run_strict:
  "\<forall>x\<in>set (prev # xs). key x = Num (f x) \<Longrightarrow>
   sorted_wrt (\<lambda>x y. f y < f x) (prev # take (descending_run key prev xs) xs)"
proof (induction xs arbitrary: prev)
  case Nil
  show ?case by simp
next
  case (Cons x xs)
  have kx: "key x = Num (f x)" and kp: "key prev = Num (f prev)"
    using Cons.prems by simp_all
  have ih: "sorted_wrt (\<lambda>x y. f y < f x) (x # take (descending_run key x xs) xs)"
    using Cons.IH [of x] Cons.prems by simp
  have tr: "transp (\<lambda>x y. f y < f x)"
    by (auto simp: transp_def)
  show ?case
  proof (cases "py_lt (key x) (key prev)")
    case True
    then have "f x < f prev"
      using kx kp by simp
    then show ?thesis
      using True ih by (simp add: sorted_wrt2 [OF tr] del: sorted_wrt.simps(2))
  next
    case False
    then show ?thesis by simp
  qed
qed

lemma filter_distinct_key_le1:
  "distinct (map f xs) \<Longrightarrow> length (filter (\<lambda>x. f x = v) xs) \<le> 1"
proof (induction xs)
  case Nil
  show ?case by simp
next
  case (Cons x xs)
  show ?case
  proof (cases "f x = v")
    case True
    have "f x \<notin> f ` set xs"
      using Cons.prems by simp
    then have "\<forall>y\<in>set xs. f y \<noteq> v"
      using True by blast
    then have "filter (\<lambda>x. f x = v) xs = []"
      by (simp add: filter_empty_conv)
    then show ?thesis using True by simp
  next
    case False
    then show ?thesis using Cons by simp
  qed
qed

lemma filter_rev_distinct_key:
  assumes "distinct (map f xs)"
  shows "filter (\<lambda>x. f x = v) (rev xs) = filter (\<lambda>x. f x = v) xs"
proof -
  have "length (filter (\<lambda>x. f x = v) xs) \<le> 1"
    using assms by (rule filter_distinct_key_le1)
  then have "rev (filter (\<lambda>x. f x = v) xs) = filter (\<lambda>x. f x = v) xs"
    by (cases "filter (\<lambda>x. f x = v) xs") simp_all
  then show ?thesis
    by (simp only: rev_filter)
qed

lemma strict_descending_rev:
  assumes "sorted_wrt (\<lambda>x y. f y < f x) run"
  shows "sorted (map f (rev run))" and "filter (\<lambda>x. f x = v) (rev run) = filter (\<lambda>x. f x = v) run"
proof -
  have "sorted_wrt (\<lambda>x y. f x < f y) (rev run)"
    using assms by (simp add: sorted_wrt_rev)
  then have st: "sorted_wrt (<) (map f (rev run))"
    by (simp add: sorted_wrt_map)
  then show "sorted (map f (rev run))"
    by (simp add: strict_sorted_iff)
  have "distinct (map f (rev run))"
    using st by (simp add: strict_sorted_iff)
  then have "distinct (map f run)"
    by (simp add: rev_map [symmetric])
  then show "filter (\<lambda>x. f x = v) (rev run) = filter (\<lambda>x. f x = v) run"
    by (rule filter_rev_distinct_key)
qed

lemma count_run_first_run:
  assumes "\<forall>x\<in>set a. key x = Num (f x)" and "2 \<le> length a"
    and "count_run key a = (n, descending)"
    and "run = (if descending then rev (take n a) else take n a)"
  shows "sorted (map f run) \<and> mset run = mset (take n a) \<and>
         (\<forall>v. filter (\<lambda>x. f x = v) run = filter (\<lambda>x. f x = v) (take n a))"
proof -
  obtain x0 x1 rest where a: "a = x0 # x1 # rest"
    using assms(2) by (cases a; cases "tl a") auto
  have k0: "key x0 = Num (f x0)" and k1: "key x1 = Num (f x1)"
    and kr: "\<forall>x\<in>set (x1 # rest). key x = Num (f x)"
    using assms(1) a by simp_all
  show ?thesis
  proof (cases "py_lt (key x1) (key x0)")
    case True
    then have less: "f x1 < f x0"
      using k0 k1 by simp
    have n: "n = 2 + descending_run key x1 rest" and d: "descending"
      using assms(3) True by (simp_all add: count_run_def a)
    have tk: "take n a = x0 # x1 # take (descending_run key x1 rest) rest"
      by (simp add: n a)
    have tr: "transp (\<lambda>x y. f y < f x)"
      by (auto simp: transp_def)
    have "sorted_wrt (\<lambda>x y. f y < f x) (x1 # take (descending_run key x1 rest) rest)"
      using kr by (rule descending_run_strict)
    then have "sorted_wrt (\<lambda>x y. f y < f x) (take n a)"
      unfolding tk using less by (simp add: sorted_wrt2 [OF tr] del: sorted_wrt.simps(2))
    then show ?thesis
      using strict_descending_rev [of f "take n a"] assms(4) d by simp
  next
    case False
    then have le: "f x0 \<le> f x1"
      using k0 k1 by simp
    have n: "n = 2 + ascending_run key x1 rest" and d: "\<not> descending"
      using assms(3) False by (simp_all add: count_run_def a)
    have tk: "take n a = x0 # x1 # take (ascending_run key x1 rest) rest"
      by (simp add: n a)
    have "sorted (map f (x1 # take (ascending_run key x1 rest) rest))"
      using kr by (rule ascending_run_sorted)
    then have "sorted (map f (take n a))"
      unfolding tk using le by (auto intro: order_trans)
    then show ?thesis
      using assms(4) d by simp
  qed
qed

lemma list_sort_sorted_stable:
  assumes "\<forall>x\<in>set a. key x = Num (f x)"
  shows "sorted (map f (list_sort key a)) \<and> mset (list_sort key a) = mset a \<and>
         (\<forall>v. filter (\<lambda>x. f x = v) (list_sort key a) = filter (\<lambda>x. f x = v) a)"
proof (cases "length a < 2")
  case True
  then have "a = [] \<or> (\<exists>x. a = [x])"
    by (cases a; cases "tl a") auto
  then have "sorted (map f a)"
    by auto
  then show ?thesis
    using True by (simp add: list_sort_def)
next
  case False
  obtain n descending where cr: "count_run key a = (n, descending)"
    by (cases "count_run key a") auto
  define run where "run = (if descending then rev (take n a) else take n a)"
  have ls: "list_sort key a = binarysort key run (drop n a)"
    using False by (simp add: list_sort_def cr run_def)
  have r: "sorted (map f run) \<and> mset run = mset (take n a) \<and>
         (\<forall>v. filter (\<lambda>x. f x = v) run = filter (\<lambda>x. f x = v) (take n a))"
    using count_run_first_run [OF assms _ cr run_def] False by simp
  then have "set run = set (take n a)"
    by (metis set_mset_mset)
  then have keys: "\<forall>x\<in>set run \<union> set (drop n a). key x = Num (f x)"
    using assms by (auto dest: in_set_takeD in_set_dropD)
  have b: "sorted (map f (binarysort key run (drop n a))) \<and>
         mset (binarysort key run (drop n a)) = mset run + mset (drop n a) \<and>
         (\<forall>v. filter (\<lambda>x. f x = v) (binarysort key run (drop n a)) =
              filter (\<lambda>x. f x = v) (run @ drop n a))"
    using r keys by (intro binarysort_sorted_stable) auto
  have m: "mset run + mset (drop n a) = mset a"
    using r by (metis append_take_drop_id mset_append)
  have fl: "filter (\<lambda>x. f x = v) (run @ drop n a) = filter (\<lambda>x. f x = v) a" for v
    using r by (metis append_take_drop_id filter_append)
  show ?thesis
    unfolding ls using b m fl by simp
qed

lemma py_sorted_reverse_sorted_stable:
  assumes "\<forall>x\<in>set xs. key x = Num (f x)"
  shows "sorted_wrt (\<lambda>p q. f q \<le> f p) (py_sorted_reverse key xs) \<and>
         mset (py_sorted_reverse key xs) = mset xs \<and>
         (\<forall>v. filter (\<lambda>x. f x = v) (py_sorted_reverse key xs) = filter (\<lambda>x. f x = v) xs)"
proof -
  have keys: "\<forall>x\<in>set (rev xs). key x = Num (f x)"
    using assms by simp
  note ls = list_sort_sorted_stable [OF keys]
  have "sorted_wrt (\<lambda>p q. f p \<le> f q) (list_sort key (rev xs))"
    using ls by (simp add: sorted_map)
  then have 1: "sorted_wrt (\<lambda>p q. f q \<le> f p) (py_sorted_reverse key xs)"
    by (simp add: py_sorted_reverse_def sorted_wrt_rev)
  have 2: "mset (py_sorted_reverse key xs) = mset xs"
    using ls by (simp add: py_sorted_reverse_def)
  have 3: "filter (\<lambda>x. f x = v) (py_sorted_reverse key xs) = filter (\<lambda>x. f x = v) xs" for v
  proof -
    have "filter (\<lambda>x. f x = v) (rev (list_sort key (rev xs))) =
        rev (filter (\<lambda>x. f x = v) (list_sort key (rev xs)))"
      by (rule rev_filter [symmetric])
    also have "\<dots> = rev (filter (\<lambda>x. f x = v) (rev xs))"
      using ls by simp
    also have "\<dots> = filter (\<lambda>x. f x = v) xs"
      by (simp add: rev_filter)
    finally show ?thesis
      by (simp only: py_sorted_reverse_def)
  qed
  show ?thesis
    using 1 2 3 by blast
qed

lemma py_sorted_reverse_no_nan:
  assumes "\<forall>x\<in>set xs. key x \<noteq> NaN"
  shows "sorted_wrt (\<lambda>p q. py_le (key q) (key p)) (py_sorted_reverse key xs) \<and>
         mset (py_sorted_reverse key xs) = mset xs \<and>
         (\<forall>s. filter (\<lambda>x. key x = s) (py_sorted_reverse key xs) = filter (\<lambda>x. key x = s) xs)"
proof -
  have "\<forall>x\<in>set xs. \<exists>v. key x = Num v"
    using assms by (metis score.exhaust)
  then obtain f where f: "\<forall>x\<in>set xs. key x = Num (f x)"
    by (rule bchoice [THEN exE])
  note p = py_sorted_reverse_sorted_stable [OF f]
  have st: "set (py_sorted_reverse key xs) = set xs"
    using p by (metis set_mset_mset)
  have "sorted_wrt (\<lambda>p q. f q \<le> f p) (py_sorted_reverse key xs)"
    using p by blast
  then have 1: "sorted_wrt (\<lambda>p q. py_le (key q) (key p)) (py_sorted_reverse key xs)"
    by (rule sorted_wrt_mono_rel [rotated]) (simp add: st f)
  have 3: "filter (\<lambda>x. key x = s) (py_sorted_reverse key xs) = filter (\<lambda>x. key x = s) xs" for s
  proof (cases s)
    case (Num v)
    have "filter (\<lambda>x. key x = s) (py_sorted_reverse key xs) =
        filter (\<lambda>x. f x = v) (py_sorted_reverse key xs)"
      by (rule filter_cong) (simp_all add: st f Num)
    also have "\<dots> = filter (\<lambda>x. f x = v) xs"
      using p by blast
    also have "\<dots> = filter (\<lambda>x. key x = s) xs"
      by (rule filter_cong) (simp_all add: f Num)
    finally show ?thesis .
  next
    case NaN
    have "filter (\<lambda>x. key x = s) (py_sorted_reverse key xs) = []"
      using assms st by (simp add: filter_empty_conv NaN)
    moreover have "filter (\<lambda>x. key x = s) xs = []"
      using assms by (simp add: filter_empty_conv NaN)
    ultimately show ?thesis by simp
  qed
  show ?thesis
    using 1 p 3 by blast
qed

lemma recommendations_online_ranked:
  "recommendations_online env user_id k = Inr (dedup_ids (map fst (ranked_pairs env user_id k)))"
proof -
  have empty: "history_tracks env user_id = [] \<Longrightarrow>
      dedup_ids (map fst (ranked_pairs env user_id k)) = []"
    by (simp add: ranked_pairs_def pooled_pairs_def py_sorted_reverse_def list_sort_def
        dedup_ids_def)
  show ?thesis
  proof (cases "history_post env user_id 3")
    case (Inl e)
    then have "history_tracks env user_id = []"
      by (simp add: history_tracks_def)
    then show ?thesis
      using Inl empty by (simp add: recommendations_online_def recommendations_online_try_def)
  next
    case (Inr resp)
    show ?thesis
    proof (cases "status_code resp = 200")
      case False
      then have "history_tracks env user_id = []"
        using Inr by (simp add: history_tracks_def)
      then show ?thesis
        using Inr False empty
        by (simp add: recommendations_online_def recommendations_online_try_def)
    next
      case True
      show ?thesis
      proof (cases "json resp")
        case (Inl e)
        then have "history_tracks env user_id = []"
          using Inr True by (simp add: history_tracks_def)
        then show ?thesis
          using Inr True Inl empty
          by (simp add: recommendations_online_def recommendations_online_try_def)
      next
        case body: (Inr events_json)
        have ht: "history_tracks env user_id = dict_get (track_id events_json)"
          using Inr True body by (simp add: history_tracks_def)
        show ?thesis
        proof (cases "dict_get (track_id events_json) = []")
          case no_events: True
          then show ?thesis
            using Inr True body empty ht
            by (simp add: recommendations_online_def recommendations_online_try_def)
        next
          case events: False
          obtain items scores where
            sl: "similar_loop env k (dict_get (track_id events_json)) ([], []) = (items, scores)"
            by (cases "similar_loop env k (dict_get (track_id events_json)) ([], [])") auto
          have "ranked_pairs env user_id k = py_sorted_reverse snd (zip items scores)"
            by (simp add: ranked_pairs_def pooled_pairs_def ht sl)
          then show ?thesis
            using Inr True body events sl
            by (simp add: recommendations_online_def recommendations_online_try_def Let_def)
        qed
      qed
    qed
  qed
qed

text \<open>
  Claim C8, amended. When no pooled score is \<open>nan\<close>, the online endpoint returns the
  identifiers of the pooled pairs as ranked by the sort, deduplicated; the ranked pairs
  are the pooled pairs in descending order of score; and for every score, the pairs with
  that score are ranked in the order in which they were pooled. The pooled list is
  \<open>zip items scores\<close>, extended in the order of the history tracks and, for each track, in
  the order the provider returned (lemma \<open>similar_loop_pools_in_order\<close>).
\<close>

theorem online_ranking_stable_without_nan:
  assumes "\<forall>p\<in>set (pooled_pairs env user_id k). snd p \<noteq> NaN"
  shows "recommendations_online env user_id k =
           Inr (dedup_ids (map fst (ranked_pairs env user_id k))) \<and>
         score_descending (ranked_pairs env user_id k) \<and>
         mset (ranked_pairs env user_id k) = mset (pooled_pairs env user_id k) \<and>
         (\<forall>s. pairs_with_score s (ranked_pairs env user_id k) =
              pairs_with_score s (pooled_pairs env user_id k))"
  unfolding score_descending_def pairs_with_score_def
  using recommendations_online_ranked [of env user_id k]
    py_sorted_reverse_no_nan [OF assms]
  by (simp add: ranked_pairs_def)

lemma pooled_pairs_tied:
  "pooled_pairs tied_services 3 2 = [(10, Num 5), (11, Num 7), (20, Num 7), (21, Num 5)]"
  by (simp add: pooled_pairs_def history_tracks_def tied_services_def example_services_def
      dict_get_def py_slice_to_def)

lemma ranked_pairs_tied:
  "ranked_pairs tied_services 3 2 = [(11, Num 7), (20, Num 7), (10, Num 5), (21, Num 5)]"
  unfolding ranked_pairs_def pooled_pairs_tied
  by (simp add: sort_eval del: binarysort.simps(2))

theorem online_ranking_stable_without_nan_witness:
  "pooled_pairs tied_services 3 2 = [(10, Num 5), (11, Num 7), (20, Num 7), (21, Num 5)] \<and>
   ranked_pairs tied_services 3 2 = [(11, Num 7), (20, Num 7), (10, Num 5), (21, Num 5)] \<and>
   recommendations_online tied_services 3 2 = Inr [11, 20, 10, 21] \<and>
   score_descending (ranked_pairs tied_services 3 2) \<and>
   pairs_with_score (Num 7) (ranked_pairs tied_services 3 2) =
     pairs_with_score (Num 7) (pooled_pairs tied_services 3 2) \<and>
   pairs_with_score (Num 7) (ranked_pairs tied_services 3 2) = [(11, Num 7), (20, Num 7)]"
proof -
  have h: "\<forall>p\<in>set (pooled_pairs tied_services 3 2). snd p \<noteq> NaN"
    by (simp add: pooled_pairs_tied)
  note t = online_ranking_stable_without_nan [OF h]
  have r: "recommendations_online tied_services 3 2 = Inr [11, 20, 10, 21]"
    using t by (simp add: ranked_pairs_tied dedup_ids_def)
  have d: "score_descending (ranked_pairs tied_services 3 2)"
    using t by blast
  have e: "pairs_with_score (Num 7) (ranked_pairs tied_services 3 2) =
      pairs_with_score (Num 7) (pooled_pairs tied_services 3 2)"
    using t by blast
  have v: "pairs_with_score (Num 7) (ranked_pairs tied_services 3 2) = [(11, Num 7), (20, Num 7)]"
    by (simp add: ranked_pairs_tied pairs_with_score_def)
  show ?thesis
    using pooled_pairs_tied ranked_pairs_tied r d e v by blast
qed

lemma pooled_pairs_nan:
  "pooled_pairs nan_services 3 7 =
     [(10, Num 1), (11, Num 1), (12, Num 1), (13, Num 1), (14, NaN), (15, Num 1), (16, Num 2)]"
  by (simp add: pooled_pairs_def history_tracks_def nan_services_def dict_get_def py_slice_to_def)

lemma ranked_pairs_nan:
  "ranked_pairs nan_services 3 7 =
     [(11, Num 1), (14, NaN), (16, Num 2), (10, Num 1), (12, Num 1), (13, Num 1), (15, Num 1)]"
  unfolding ranked_pairs_def pooled_pairs_nan
  by (simp add: sort_eval del: binarysort.simps(2))

theorem online_ranking_nan_counterexample:
  "pooled_pairs nan_services 3 7 =
     [(10, Num 1), (11, Num 1), (12, Num 1), (13, Num 1), (14, NaN), (15, Num 1), (16, Num 2)] \<and>
   ranked_pairs nan_services 3 7 =
     [(11, Num 1), (14, NaN), (16, Num 2), (10, Num 1), (12, Num 1), (13, Num 1), (15, Num 1)] \<and>
   recommendations_online nan_services 3 7 = Inr [11, 14, 16, 10, 12, 13, 15] \<and>
   \<not> score_descending (ranked_pairs nan_services 3 7) \<and>
   pairs_with_score (Num 1) (ranked_pairs nan_services 3 7) \<noteq>
     pairs_with_score (Num 1) (pooled_pairs nan_services 3 7)"
proof -
  have r: "recommendations_online nan_services 3 7 = Inr [11, 14, 16, 10, 12, 13, 15]"
    by (simp add: recommendations_online_ranked ranked_pairs_nan dedup_ids_def)
  have d: "\<not> score_descending (ranked_pairs nan_services 3 7)"
    by (simp add: ranked_pairs_nan score_descending_def)
  have s: "pairs_with_score (Num 1) (ranked_pairs nan_services 3 7) \<noteq>
      pairs_with_score (Num 1) (pooled_pairs nan_services 3 7)"
    by (simp add: ranked_pairs_nan pooled_pairs_nan pairs_with_score_def)
  show ?thesis
    using pooled_pairs_nan ranked_pairs_nan r d s by blast
qed

text \<open>
  Claim C7. Whatever the services do (raise, answer with another status, send a body that
  does not parse), \<open>recommendations_online\<close> and \<open>recommendations\<close> return a list and no
  exception.
\<close>

theorem endpoints_never_raise:
  "(\<exists>recs. recommendations_online env user_id k = Inr recs) \<and>
   (\<exists>recs. fst (recommendations env self user_id k) = Inr recs)"
proof
  show "\<exists>recs. recommendations_online env user_id k = Inr recs"
    by (cases "recommendations_online_try env user_id k")
      (simp_all add: recommendations_online_def)
  show "\<exists>recs. fst (recommendations env self user_id k) = Inr recs"
    by (cases "recommendations_try env self user_id k"; cases "fst (recommendations_try env self user_id k)")
      (simp_all add: recommendations_def)
qed

text \<open>
  Claim C6. A user with a single personal row does not get that row: the lookup raises
  \<open>AttributeError\<close>, the handler for unknown errors returns the empty list, and the
  counters stay as they were. Users with no row get the default list cut by \<open>[:k]\<close>, users
  with several rows get their rows cut by \<open>[:k]\<close>.
\<close>

theorem get_single_row_returns_empty:
  "loc_track_ids (personal single_row_store) 7 = Inl AttributeError \<and>
   get single_row_store 7 3 = ([], single_row_store) \<and>
   fst (get single_row_store 7 3) \<noteq> take (nat 3) [70] \<and>
   fst (get single_row_store 2 3) = [11, 12] \<and>
   fst (get single_row_store 1 3) = [1, 2, 3]"
  by (simp add: get_def loc_track_ids_def single_row_store_def py_slice_to_def numeral_3_eq_3)

lemma similar_loop_unavailable:
  "\<forall>tid\<in>set events. similar_unavailable (similar_items_post env tid k) \<Longrightarrow>
   fst (similar_loop env k events (items, scores)) = items"
proof (induction events arbitrary: items scores)
  case Nil
  show ?case by simp
next
  case (Cons tid events)
  have u: "similar_unavailable (similar_items_post env tid k)"
    using Cons.prems by simp
  have rest: "fst (similar_loop env k events (its, scs)) = its" for its scs
    using Cons.IH Cons.prems by simp
  show ?case
  proof (cases "similar_items_post env tid k")
    case (Inl e)
    then show ?thesis by (simp add: rest)
  next
    case (Inr resp)
    show ?thesis
    proof (cases "json resp")
      case (Inl e)
      then show ?thesis using Inr by (simp add: rest)
    next
      case body: (Inr item_similar_items)
      show ?thesis
      proof (cases "status_code resp = 200")
        case True
        then have "dict_get (item_id_2 item_similar_items) = []"
          using u Inr body by (simp add: similar_unavailable_def)
        then show ?thesis using Inr body True by (simp add: rest)
      next
        case False
        then show ?thesis using Inr by (simp add: rest)
      qed
    qed
  qed
qed

lemma blend_empty_online: "blend offline [] k = py_slice_to (first_occurrences offline) k"
  by (simp add: blend_unfold)

lemma recommendations_online_unavailable:
  assumes "\<forall>tid\<in>set (history_tracks env user_id). similar_unavailable (similar_items_post env tid k)"
  shows "recommendations_online env user_id k = Inr []"
proof (cases "history_post env user_id 3")
  case (Inl e)
  then show ?thesis
    by (simp add: recommendations_online_def recommendations_online_try_def)
next
  case (Inr resp)
  show ?thesis
  proof (cases "status_code resp = 200")
    case False
    then show ?thesis using Inr
      by (simp add: recommendations_online_def recommendations_online_try_def)
  next
    case True
    show ?thesis
    proof (cases "json resp")
      case (Inl e)
      then show ?thesis using Inr True
        by (simp add: recommendations_online_def recommendations_online_try_def)
    next
      case body: (Inr events_json)
      have ht: "history_tracks env user_id = dict_get (track_id events_json)"
        using Inr True body by (simp add: history_tracks_def)
      obtain items scores where
        sl: "similar_loop env k (dict_get (track_id events_json)) ([], []) = (items, scores)"
        by (cases "similar_loop env k (dict_get (track_id events_json)) ([], [])") auto
      have "fst (similar_loop env k (dict_get (track_id events_json)) ([], [])) = []"
        using assms unfolding ht by (rule similar_loop_unavailable)
      then have "items = []"
        using sl by simp
      then show ?thesis using Inr True body sl
        by (simp add: recommendations_online_def recommendations_online_try_def Let_def
            py_sorted_reverse_def list_sort_def dedup_ids_def)
    qed
  qed
qed

text \<open>
  Claim C5. When, for every track of the user's history, the similarity call fails or
  returns no item, the online list is empty and the blended result is the offline list,
  deduplicated by first occurrence and cut by \<open>[:k]\<close>: to its first \<open>k\<close> entries for
  \<open>k \<ge> 0\<close>.
\<close>

theorem similarity_failure_gives_offline:
  assumes "\<forall>tid\<in>set (history_tracks env user_id). similar_unavailable (similar_items_post env tid k)"
  shows "recommendations_online env user_id k = Inr [] \<and>
         fst (recommendations env self user_id k) =
           Inr (py_slice_to (first_occurrences (fst (recommendations_offline self user_id k))) k) \<and>
         (0 \<le> k \<longrightarrow>
            fst (recommendations env self user_id k) =
              Inr (take (nat k) (first_occurrences (fst (recommendations_offline self user_id k)))))"
proof (intro conjI impI)
  show on: "recommendations_online env user_id k = Inr []"
    using assms by (rule recommendations_online_unavailable)
  obtain recs_online where "recommendations_online env user_id k = Inr recs_online"
    and r: "fst (recommendations env self user_id k) =
       Inr (blend (fst (recommendations_offline self user_id k)) recs_online k)"
    using recommendations_returns_blend [of env user_id k self] by blast
  with on have "recs_online = []"
    by simp
  then show b: "fst (recommendations env self user_id k) =
      Inr (py_slice_to (first_occurrences (fst (recommendations_offline self user_id k))) k)"
    using r by (simp add: blend_empty_online)
  assume "0 \<le> k"
  then show "fst (recommendations env self user_id k) =
      Inr (take (nat k) (first_occurrences (fst (recommendations_offline self user_id k))))"
    using b by (simp add: py_slice_to_nonneg)
qed

lemma history_tracks_failing: "history_tracks failing_services 3 = [101, 102]"
  by (simp add: history_tracks_def failing_services_def example_services_def dict_get_def
      py_slice_to_def)

theorem similarity_failure_gives_offline_witness:
  "history_tracks failing_services 3 = [101, 102] \<and>
   similar_unavailable (similar_items_post failing_services 101 3) \<and>
   similar_unavailable (similar_items_post failing_services 102 3) \<and>
   (0::int) \<le> 3 \<and>
   recommendations_online failing_services 3 3 = Inr [] \<and>
   fst (recommendations failing_services example_store 3 3) = Inr [1, 2, 3]"
proof -
  have u1: "similar_unavailable (similar_items_post failing_services 101 3)"
    by (simp add: similar_unavailable_def failing_services_def)
  have u2: "similar_unavailable (similar_items_post failing_services 102 3)"
    by (simp add: similar_unavailable_def failing_services_def)
  have h1: "\<forall>tid\<in>set (history_tracks failing_services 3).
      similar_unavailable (similar_items_post failing_services tid 3)"
    using u1 u2 by (simp add: history_tracks_failing)
  have h2: "(0::int) \<le> 3"
    by simp
  have off: "take (nat 3) (first_occurrences (fst (recommendations_offline example_store 3 3)))
      = [1, 2, 3]"
    by (simp add: recommendations_offline_def get_def loc_track_ids_def example_store_def
        py_slice_to_def numeral_3_eq_3)
  have on: "recommendations_online failing_services 3 3 = Inr []"
    using similarity_failure_gives_offline [OF h1, of example_store] by blast
  have "fst (recommendations failing_services example_store 3 3) =
      Inr (take (nat 3) (first_occurrences (fst (recommendations_offline example_store 3 3))))"
    using similarity_failure_gives_offline [OF h1, of example_store] h2 by blast
  then have r: "fst (recommendations failing_services example_store 3 3) = Inr [1, 2, 3]"
    by (simp only: off)
  show ?thesis
    using history_tracks_failing u1 u2 h2 on r by blast
qed

text \<open>
  Claim C4. \<open>recommendations_online\<close> does not cut its list to \<open>k\<close> entries: with a history
  of two tracks and \<open>k = 1\<close>, each similarity call returns one item and the endpoint
  returns both.
\<close>

theorem recommendations_online_exceeds_k:
  "recommendations_online example_services 3 1 = Inr [10, 20] \<and>
   \<not> length [10, 20 :: int] \<le> nat 1"
proof -
  have p: "pooled_pairs example_services 3 1 = [(10, Num 9), (20, Num 8)]"
    by (simp add: pooled_pairs_def history_tracks_def example_services_def dict_get_def
        py_slice_to_def)
  have "ranked_pairs example_services 3 1 = [(10, Num 9), (20, Num 8)]"
    unfolding ranked_pairs_def p by (simp add: sort_eval del: binarysort.simps(2))
  then show ?thesis
    by (simp add: recommendations_online_ranked dedup_ids_def)
qed

end
